theory Spec2Isabelle
  imports Main
begin

section \<open>Data model of \<open>src/formatters/base.ts\<close>\<close>

text \<open>
  The diff operation tags of the diff-match-patch library (\<open>DIFF_DELETE = -1\<close>,
  \<open>DIFF_INSERT = 1\<close>, \<open>DIFF_EQUAL = 0\<close>); a diff is a pair of a tag and a text.
  JavaScript strings are modelled as \<open>string\<close>: one \<open>char\<close> per code unit.
\<close>

datatype DiffOp = DIFF_DELETE | DIFF_INSERT | DIFF_EQUAL

type_synonym Diff = "DiffOp \<times> string"

datatype EditAction = Delete | Insert | Replace

text \<open>
  Positions: \<open>line\<close> and \<open>character\<close> are JavaScript numbers; integers here, since a
  header \<open>@@ -0 +1 @@\<close> gives the start line \<open>-1\<close>.
\<close>

record Position =
  line :: int
  character :: int

text \<open>
  Class \<open>Edit\<close>. The constructor sets \<open>action\<close>, \<open>start\<close> and the empty \<open>text\<close>; the
  field \<open>end\<close> stays undefined until a delete assigns it, hence the option.
\<close>

record Edit =
  action :: EditAction
  start :: Position
  endPos :: "Position option"
  etext :: string

definition new_Edit :: "EditAction \<Rightarrow> Position \<Rightarrow> Edit" where
  "new_Edit a s = \<lparr>action = a, start = s, endPos = None, etext = []\<rparr>"

text \<open>Class \<open>Patch\<close>.\<close>

record Patch =
  diffs :: "Diff list"
  start1 :: int
  start2 :: int
  length1 :: int
  length2 :: int

text \<open>The errors thrown by the functions modelled here, one constructor per \<open>throw\<close>.\<close>

datatype error =
    InternalError
  | InvalidPatchString string
  | InvalidPatchMode string string
  | UnableToParse
  | InvalidArguments

text \<open>The editor's text edit (\<open>TextEdit\<close> of the language server protocol).\<close>

record Range =
  rstart :: Position
  rend :: Position

record TextEdit =
  range_of :: Range
  newText :: string

section \<open>The edit synthesizer: \<open>getTextEditsInternal\<close>\<close>

text \<open>\<open>before.split(/\r?\n/g)\<close>: a line ends at a line feed, and a carriage return
  directly before that line feed belongs to the terminator.\<close>

fun split_lines :: "string \<Rightarrow> string list" where
  "split_lines [] = [[]]"
| "split_lines [c] = (if c = CHR 0x0A then [[], []] else [[c]])"
| "split_lines (c # d # cs) =
     (if c = CHR 0x0A then [] # split_lines (d # cs)
      else if c = CHR 0x0D \<and> d = CHR 0x0A then [] # split_lines cs
      else (case split_lines (d # cs) of
              [] \<Rightarrow> [[c]]
            | l # ls \<Rightarrow> (c # l) # ls))"

text \<open>
  The initial value of \<open>character\<close>: when \<open>line > 0\<close>, every line of \<open>before\<close> with
  an index below \<open>line\<close> adds its length and \<open>NEW_LINE_LENGTH\<close>, the length of the
  platform's \<open>EOL\<close>, which is a parameter here.
\<close>

definition initial_character :: "string \<Rightarrow> string \<Rightarrow> int \<Rightarrow> int" where
  "initial_character eol before ln =
     (if ln > 0
      then fold (\<lambda>l ch. ch + (int (length l) + int (length eol)))
             (map snd (filter (\<lambda>(i, l). int i < ln) (enumerate 0 (split_lines before)))) 0
      else 0)"

definition initial_cursor :: "string \<Rightarrow> string \<Rightarrow> int \<Rightarrow> Position" where
  "initial_cursor eol before startLine =
     \<lparr>line = startLine, character = initial_character eol before startLine\<rparr>"

text \<open>The inner loop: the line and character after a diff's text.\<close>

fun advance :: "string \<Rightarrow> Position \<Rightarrow> Position" where
  "advance [] p = p"
| "advance (c # cs) p =
     advance cs (if c \<noteq> CHR 0x0A
                 then p\<lparr>character := character p + 1\<rparr>
                 else \<lparr>line = line p + 1, character = 0\<rparr>)"

text \<open>The variables of the outer loop: the cursor (\<open>line\<close>, \<open>character\<close>), the edits
  pushed so far and the edit in progress.\<close>

record SynthState =
  cursor :: Position
  edits :: "Edit list"
  edit :: "Edit option"

text \<open>One iteration of the outer loop, for the diff \<open>(op, txt)\<close>.\<close>

fun diff_step :: "Diff \<Rightarrow> SynthState \<Rightarrow> error + SynthState" where
  "diff_step (DIFF_DELETE, txt) st =
     (let start = cursor st; p = advance txt start in
      case edit st of
        None \<Rightarrow> Inr (st\<lparr>cursor := p, edit := Some ((new_Edit Delete start)\<lparr>endPos := Some p\<rparr>)\<rparr>)
      | Some e \<Rightarrow>
          if action e \<noteq> Delete then Inl InternalError
          else Inr (st\<lparr>cursor := p, edit := Some (e\<lparr>endPos := Some p\<rparr>)\<rparr>))"
| "diff_step (DIFF_INSERT, txt) st =
     (let start = cursor st;
          e = (case edit st of
                 None \<Rightarrow> new_Edit Insert start
               | Some e \<Rightarrow> if action e = Delete then e\<lparr>action := Replace\<rparr> else e)
      in Inr (st\<lparr>cursor := start, edit := Some (e\<lparr>etext := etext e @ txt\<rparr>)\<rparr>))"
| "diff_step (DIFF_EQUAL, txt) st =
     (let start = cursor st; p = advance txt start in
      case edit st of
        None \<Rightarrow> Inr (st\<lparr>cursor := p\<rparr>)
      | Some e \<Rightarrow> Inr (st\<lparr>cursor := p, edits := edits st @ [e], edit := None\<rparr>))"

fun diff_loop :: "Diff list \<Rightarrow> SynthState \<Rightarrow> error + SynthState" where
  "diff_loop [] st = Inr st"
| "diff_loop (d # ds) st =
     (case diff_step d st of Inl e \<Rightarrow> Inl e | Inr st' \<Rightarrow> diff_loop ds st')"

text \<open>After the loop, an edit still in progress is pushed.\<close>

definition finish :: "SynthState \<Rightarrow> Edit list" where
  "finish st = (case edit st of None \<Rightarrow> edits st | Some e \<Rightarrow> edits st @ [e])"

definition initial_state :: "string \<Rightarrow> string \<Rightarrow> int \<Rightarrow> SynthState" where
  "initial_state eol before startLine =
     \<lparr>cursor = initial_cursor eol before startLine, edits = [], edit = None\<rparr>"

definition getTextEditsInternal :: "string \<Rightarrow> string \<Rightarrow> Diff list \<Rightarrow> int \<Rightarrow> error + Edit list" where
  "getTextEditsInternal eol before ds startLine =
     (case diff_loop ds (initial_state eol before startLine) of
        Inl e \<Rightarrow> Inl e
      | Inr st \<Rightarrow> Inr (finish st))"

section \<open>The patch parser: \<open>patch_fromText\<close>\<close>

text \<open>\<open>textline.split(/[\r\n]/)\<close>: every carriage return and every line feed ends a
  piece, so a CRLF pair leaves an empty piece behind.\<close>

fun split_text :: "string \<Rightarrow> string list" where
  "split_text [] = [[]]"
| "split_text (c # cs) =
     (if c = CHR 0x0D \<or> c = CHR 0x0A then [] # split_text cs
      else (case split_text cs of
              [] \<Rightarrow> [[c]]
            | l # ls \<Rightarrow> (c # l) # ls))"

definition is_digit :: "char \<Rightarrow> bool" where
  "is_digit c = (c \<in> set ''0123456789'')"

text \<open>\<open>parseInt(s, 10)\<close> on a string of decimal digits (the only strings the header
  groups can hold). JavaScript numbers are doubles; the model keeps the exact integer,
  which agrees below \<open>2^53\<close>.\<close>

definition digit_value :: "char \<Rightarrow> int" where
  "digit_value c = int (of_char c) - 48"

definition parseInt :: "string \<Rightarrow> int" where
  "parseInt s = fold (\<lambda>c n. 10 * n + digit_value c) s 0"

fun strip_prefix :: "string \<Rightarrow> string \<Rightarrow> string option" where
  "strip_prefix [] s = Some s"
| "strip_prefix (p # ps) [] = None"
| "strip_prefix (p # ps) (c # cs) = (if p = c then strip_prefix ps cs else None)"

text \<open>
  The part \<open>(\d+),?(\d*)\<close> of the header pattern, matched at the front of \<open>s\<close>: the
  two groups and the rest. The greedy choice is the only one that can succeed, since
  what follows the part in the pattern is a space.
\<close>

definition header_half :: "string \<Rightarrow> (string \<times> string \<times> string) option" where
  "header_half s =
     (let g1 = takeWhile is_digit s;
          r1 = dropWhile is_digit s;
          r2 = (case r1 of [] \<Rightarrow> r1 | c # cs \<Rightarrow> if c = CHR '','' then cs else r1);
          g2 = takeWhile is_digit r2;
          r3 = dropWhile is_digit r2
      in if g1 = [] then None else Some (g1, g2, r3))"

text \<open>The pattern \<open>/^@@ -(\d+),?(\d*) \+(\d+),?(\d*) @@$/\<close>: the four groups of a match.\<close>

definition patchHeader :: "string \<Rightarrow> (string \<times> string \<times> string \<times> string) option" where
  "patchHeader l =
     (case strip_prefix ''@@ -'' l of
        None \<Rightarrow> None
      | Some r0 \<Rightarrow>
         (case header_half r0 of
            None \<Rightarrow> None
          | Some (m1, m2, r1) \<Rightarrow>
             (case strip_prefix '' +'' r1 of
                None \<Rightarrow> None
              | Some r2 \<Rightarrow>
                 (case header_half r2 of
                    None \<Rightarrow> None
                  | Some (m3, m4, r3) \<Rightarrow>
                      if r3 = '' @@'' then Some (m1, m2, m3, m4) else None))))"

text \<open>The start and the length of one half of the header, from its two groups.\<close>

definition header_span :: "string \<Rightarrow> string \<Rightarrow> int \<times> int" where
  "header_span ms ml =
     (let st = parseInt ms in
      if ml = [] then (st - 1, 1)
      else if ml = ''0'' then (st, 0)
      else (st - 1, parseInt ml))"

definition header_patch :: "string \<times> string \<times> string \<times> string \<Rightarrow> Patch" where
  "header_patch m =
     (case m of (m1, m2, m3, m4) \<Rightarrow>
        \<lparr>diffs = [],
         start1 = fst (header_span m1 m2), start2 = fst (header_span m3 m4),
         length1 = snd (header_span m1 m2), length2 = snd (header_span m3 m4)\<rparr>)"

text \<open>
  The inner loop over the content lines of one patch, from the lines not yet read:
  the diffs pushed and the lines left, the first of which starts the next patch.
\<close>

fun content_loop :: "string list \<Rightarrow> Diff list \<Rightarrow> error + (Diff list \<times> string list)" where
  "content_loop [] ds = Inr (ds, [])"
| "content_loop (l # ls) ds =
     (let sign = take 1 l; ln = drop 1 l in
      if sign = ''-'' then content_loop ls (ds @ [(DIFF_DELETE, ln)])
      else if sign = ''+'' then content_loop ls (ds @ [(DIFF_INSERT, ln)])
      else if sign = '' '' then content_loop ls (ds @ [(DIFF_EQUAL, ln)])
      else if sign = ''@'' then Inr (ds, l # ls)
      else if sign = [] then content_loop ls ds
      else Inl (InvalidPatchMode sign ln))"

lemma content_loop_length:
  "content_loop ls ds = Inr (ds', rest) \<Longrightarrow> length rest \<le> length ls"
  by (induction ls arbitrary: ds) (fastforce simp: Let_def split: if_splits)+

text \<open>The outer loop: each round reads a header and the content lines after it.\<close>

function patch_loop :: "string list \<Rightarrow> Patch list \<Rightarrow> error + Patch list" where
  "patch_loop [] patches = Inr patches"
| "patch_loop (l # ls) patches =
     (case patchHeader l of
        None \<Rightarrow> Inl (InvalidPatchString l)
      | Some m \<Rightarrow>
         (case content_loop ls [] of
            Inl e \<Rightarrow> Inl e
          | Inr (ds, rest) \<Rightarrow> patch_loop rest (patches @ [(header_patch m)\<lparr>diffs := ds\<rparr>])))"
  by pat_completeness auto
termination
  by (relation "measure (\<lambda>(ls, patches). length ls)")
     (auto dest: content_loop_length)

definition patch_fromText :: "string \<Rightarrow> error + Patch list" where
  "patch_fromText textline =
     (if textline = [] then Inr [] else patch_loop (split_text textline) [])"

section \<open>The pipeline: \<open>getTextEditsFromPatch\<close>\<close>

definition startsWith :: "string \<Rightarrow> string \<Rightarrow> bool" where
  "startsWith s pat = (take (length pat) s = pat)"

text \<open>\<open>s.indexOf(pat)\<close>, counted from \<open>i\<close>: the first index of \<open>pat\<close>, or \<open>-1\<close>.\<close>

fun indexOf_from :: "string \<Rightarrow> string \<Rightarrow> int \<Rightarrow> int" where
  "indexOf_from pat [] i = (if pat = [] then i else - 1)"
| "indexOf_from pat (c # cs) i =
     (if startsWith (c # cs) pat then i else indexOf_from pat cs (i + 1))"

definition indexOf :: "string \<Rightarrow> string \<Rightarrow> int" where
  "indexOf s pat = indexOf_from pat s 0"

text \<open>\<open>s.substring(i)\<close>: a negative index counts as 0.\<close>

definition substring :: "string \<Rightarrow> int \<Rightarrow> string" where
  "substring s i = drop (nat i) s"

definition no_newline_marker :: string where
  "no_newline_marker = CHR 0x5C # '' No newline at end of file''"

text \<open>\<open>patch.replace(/\\ No newline at end of file[\r\n]/, '')\<close>: the pattern has no
  \<open>g\<close> flag, so the first match only is removed, the marker with the one character
  after it.\<close>

fun replace_marker :: "string \<Rightarrow> string" where
  "replace_marker [] = []"
| "replace_marker (c # cs) =
     (let s = c # cs; rest = drop (length no_newline_marker) s in
      if startsWith s no_newline_marker \<and> rest \<noteq> [] \<and> (hd rest = CHR 0x0D \<or> hd rest = CHR 0x0A)
      then tl rest
      else c # replace_marker cs)"

text \<open>Method \<open>Edit.apply\<close>. \<open>Range.create\<close> of the protocol library throws on an
  undefined position, which is the result \<open>None\<close> here and the error \<open>InvalidArguments\<close>
  of the loop below; no edit of the synthesizer reaches that branch.\<close>

definition Edit_apply :: "Edit \<Rightarrow> TextEdit option" where
  "Edit_apply e =
     (case action e of
        Insert \<Rightarrow> Some \<lparr>range_of = \<lparr>rstart = start e, rend = start e\<rparr>, newText = etext e\<rparr>
      | Delete \<Rightarrow>
         (case endPos e of
            None \<Rightarrow> None
          | Some q \<Rightarrow> Some \<lparr>range_of = \<lparr>rstart = start e, rend = q\<rparr>, newText = []\<rparr>)
      | Replace \<Rightarrow>
         (case endPos e of
            None \<Rightarrow> None
          | Some q \<Rightarrow> Some \<lparr>range_of = \<lparr>rstart = start e, rend = q\<rparr>, newText = etext e\<rparr>))"

fun apply_loop :: "Edit list \<Rightarrow> TextEdit list \<Rightarrow> error + TextEdit list" where
  "apply_loop [] textEdits = Inr textEdits"
| "apply_loop (e # es) textEdits =
     (case Edit_apply e of
        None \<Rightarrow> Inl InvalidArguments
      | Some t \<Rightarrow> apply_loop es (textEdits @ [t]))"

text \<open>The parser's diffs with the platform's \<open>EOL\<close> added to every text.\<close>

definition add_eol :: "string \<Rightarrow> Diff list \<Rightarrow> Diff list" where
  "add_eol eol ds = map (\<lambda>(op, txt). (op, txt @ eol)) ds"

fun patches_loop :: "string \<Rightarrow> string \<Rightarrow> Patch list \<Rightarrow> TextEdit list \<Rightarrow> error + TextEdit list" where
  "patches_loop eol before [] textEdits = Inr textEdits"
| "patches_loop eol before (p # ps) textEdits =
     (case getTextEditsInternal eol before (add_eol eol (diffs p)) (start1 p) of
        Inl e \<Rightarrow> Inl e
      | Inr es \<Rightarrow>
         (case apply_loop es textEdits of
            Inl e \<Rightarrow> Inl e
          | Inr textEdits' \<Rightarrow> patches_loop eol before ps textEdits'))"

definition strip_file_header :: "string \<Rightarrow> string" where
  "strip_file_header patch =
     (if startsWith patch ''---'' then substring patch (indexOf patch ''@@'') else patch)"

definition getTextEditsFromPatch :: "string \<Rightarrow> string \<Rightarrow> string \<Rightarrow> error + TextEdit list" where
  "getTextEditsFromPatch eol before patch0 =
     (let patch = strip_file_header patch0 in
      if patch = [] then Inr []
      else
        (case patch_fromText (replace_marker patch) of
           Inl e \<Rightarrow> Inl e
         | Inr patches \<Rightarrow>
             if patches = [] then Inl UnableToParse
             else patches_loop eol before patches []))"

section \<open>Notions used in the statements\<close>

text \<open>An insert or replace edit is in progress: the state in which a delete throws.\<close>

definition inserting :: "SynthState \<Rightarrow> bool" where
  "inserting st = (case edit st of None \<Rightarrow> False | Some e \<Rightarrow> action e \<noteq> Delete)"

text \<open>The synthesizer's loop from a given cursor, with no edit pushed or in progress.\<close>

definition synthesize_from :: "Position \<Rightarrow> Diff list \<Rightarrow> error + Edit list" where
  "synthesize_from c ds =
     (case diff_loop ds \<lparr>cursor = c, edits = [], edit = None\<rparr> of
        Inl e \<Rightarrow> Inl e
      | Inr st \<Rightarrow> Inr (finish st))"

text \<open>Document order on positions, and the end of the span an edit covers in the
  original text: an insert covers the empty span at its start.\<close>

definition pos_le :: "Position \<Rightarrow> Position \<Rightarrow> bool" where
  "pos_le p q = (line p < line q \<or> (line p = line q \<and> character p \<le> character q))"

definition span_end :: "Edit \<Rightarrow> Position" where
  "span_end e = (case endPos e of None \<Rightarrow> start e | Some q \<Rightarrow> q)"

text \<open>The edits of a list lie in document order: each ends at or before the start of
  every later one, and none ends before its own start.\<close>

definition in_order :: "Edit list \<Rightarrow> bool" where
  "in_order es =
     (sorted_wrt (\<lambda>a b. pos_le (span_end a) (start b)) es
      \<and> list_all (\<lambda>e. pos_le (start e) (span_end e)) es)"

text \<open>The loop's invariant for the order of the edits: the edits pushed and the edit in
  progress lie in order, and all end at or before the cursor.\<close>

definition ordered_state :: "SynthState \<Rightarrow> bool" where
  "ordered_state st =
     (in_order (finish st)
      \<and> list_all (\<lambda>e. pos_le (span_end e) (cursor st)) (finish st))"

subsection \<open>The patch grammar, in the words of the specification\<close>

text \<open>A hunk header with its two halves written out: the start digits, and a comma
  with the length digits where these are given.\<close>

definition half_text :: "string \<Rightarrow> string \<Rightarrow> string" where
  "half_text s l = s @ (if l = [] then [] else CHR '','' # l)"

definition header_text :: "string \<Rightarrow> string \<Rightarrow> string \<Rightarrow> string \<Rightarrow> string" where
  "header_text a b c d = ''@@ -'' @ half_text a b @ '' +'' @ half_text c d @ '' @@''"

text \<open>
  The header grammar as the specification writes it,
  \<open>@@ -<start1>[,<len1>] +<start2>[,<len2>] @@\<close>: a line that matches the header
  pattern and is equal to its four groups written out again, with a comma exactly
  where length digits follow. These are the lines \<open>header_text a b c d\<close> of digit
  strings with \<open>a\<close> and \<open>c\<close> not empty (lemma \<open>header_grammar_iff\<close>).
\<close>

definition header_grammar :: "string \<Rightarrow> bool" where
  "header_grammar l =
     (case patchHeader l of
        None \<Rightarrow> False
      | Some (a, b, c, d) \<Rightarrow> l = header_text a b c d)"

text \<open>A header with each comma and each run of length digits there or not.\<close>

definition comma_text :: "bool \<Rightarrow> string" where
  "comma_text k = (if k then '','' else [])"

definition header_pattern_text ::
  "string \<Rightarrow> bool \<Rightarrow> string \<Rightarrow> string \<Rightarrow> bool \<Rightarrow> string \<Rightarrow> string" where
  "header_pattern_text a k1 b c k2 d =
     ''@@ -'' @ a @ comma_text k1 @ b @ '' +'' @ c @ comma_text k2 @ d @ '' @@''"

text \<open>A line matches the header pattern of the source; a line's sign is none of the five
  allowed; a line is not the start of a patch.\<close>

definition is_header :: "string \<Rightarrow> bool" where
  "is_header l = (patchHeader l \<noteq> None)"

definition bad_sign :: "string \<Rightarrow> bool" where
  "bad_sign l = (take 1 l \<notin> {''-'', ''+'', '' '', ''@'', []})"

definition not_at :: "string \<Rightarrow> bool" where
  "not_at l = (take 1 l \<noteq> ''@'')"

text \<open>
  The lines of a patch text are malformed when the first line, or a later line that
  begins with \<open>@\<close>, is no header, or when a later line has a bad sign. The first line
  and the later lines that begin with \<open>@\<close> are the lines expected to be headers; the
  other lines are the content lines.
\<close>

definition malformed :: "string list \<Rightarrow> bool" where
  "malformed ls =
     (case ls of
        [] \<Rightarrow> False
      | h # rest \<Rightarrow>
          \<not> is_header h \<or> list_ex (\<lambda>l. bad_sign l \<or> (\<not> not_at l \<and> \<not> is_header l)) rest)"

text \<open>The primitive of a content line: by its sign, with the sign stripped; none for an
  empty line.\<close>

definition line_diff :: "string \<Rightarrow> Diff option" where
  "line_diff l =
     (if take 1 l = ''-'' then Some (DIFF_DELETE, drop 1 l)
      else if take 1 l = ''+'' then Some (DIFF_INSERT, drop 1 l)
      else if take 1 l = '' '' then Some (DIFF_EQUAL, drop 1 l)
      else None)"

text \<open>The lines in hunks: a header line with the content lines up to the next line
  that begins with \<open>@\<close>.\<close>

function hunks :: "string list \<Rightarrow> (string \<times> string list) list" where
  "hunks [] = []"
| "hunks (h # ls) = (h, takeWhile not_at ls) # hunks (dropWhile not_at ls)"
  by pat_completeness auto
termination
  by (relation "measure length") (auto simp: length_dropWhile_le less_Suc_eq_le)

definition hunk_patch :: "string \<times> string list \<Rightarrow> Patch option" where
  "hunk_patch hc =
     (case patchHeader (fst hc) of
        None \<Rightarrow> None
      | Some m \<Rightarrow> Some ((header_patch m)\<lparr>diffs := List.map_filter line_diff (snd hc)\<rparr>))"

text \<open>A hunk the parser rejects: its header line is no header, or one of its content
  lines has a bad sign.\<close>

definition hunk_bad :: "string \<times> string list \<Rightarrow> bool" where
  "hunk_bad hc = (\<not> is_header (fst hc) \<or> list_ex bad_sign (snd hc))"

subsection \<open>Applying the edits to the original text\<close>

text \<open>
  Modelled from the spec: the application of the returned edits to the document, which
  the repository leaves to the host editor. A position is a 0-based line and a 0-based
  character in that line of the original text; lines end at line feeds, as the
  synthesizer counts them; a range covers the text from its start up to, not including,
  its end; all edits refer to the one original text and are applied together, in the
  order of the list. As in the language server protocol, whose \<open>TextEdit\<close>, \<open>Range\<close>
  and \<open>Position\<close> the source returns, a character beyond the end of its line counts as
  the end of the line, and overlapping edits are refused.
\<close>

text \<open>The offset at which line \<open>l\<close> starts; the length of the text when it has fewer
  lines.\<close>

fun line_offset :: "string \<Rightarrow> int \<Rightarrow> nat" where
  "line_offset [] l = 0"
| "line_offset (c # cs) l =
     (if l \<le> 0 then 0
      else Suc (line_offset cs (if c = CHR 0x0A then l - 1 else l)))"











section \<open>The initial cursor\<close>






section \<open>Steps of the synthesizer\<close>

lemma diff_loop_append:
  "diff_loop (xs @ ys) st =
     (case diff_loop xs st of Inl e \<Rightarrow> Inl e | Inr st' \<Rightarrow> diff_loop ys st')"
  by (induction xs arbitrary: st) (auto split: sum.splits)

lemma diff_step_error: "diff_step d st = Inl e \<Longrightarrow> e = InternalError"
  by (cases d; cases "fst d") (auto simp: Let_def split: option.splits if_splits)

lemma diff_loop_error: "diff_loop ds st = Inl e \<Longrightarrow> e = InternalError"
  by (induction ds arbitrary: st) (auto split: sum.splits dest: diff_step_error)

lemma diff_step_delete_fails:
  "(diff_step (DIFF_DELETE, t) st = Inl InternalError) = inserting st"
  by (auto simp: inserting_def Let_def split: option.splits)

lemma diff_step_delete_ok:
  "diff_step (DIFF_DELETE, t) st = Inr st' \<Longrightarrow> \<not> inserting st'"
  by (auto simp: inserting_def Let_def new_Edit_def split: option.splits if_splits)

lemma diff_step_insert_ok:
  "\<exists>st'. diff_step (DIFF_INSERT, t) st = Inr st' \<and> inserting st'"
  by (auto simp: inserting_def Let_def new_Edit_def split: option.splits)

lemma diff_step_equal_ok:
  "\<exists>st'. diff_step (DIFF_EQUAL, t) st = Inr st' \<and> \<not> inserting st'"
  by (auto simp: inserting_def Let_def split: option.splits)

lemma initial_state_not_inserting: "\<not> inserting (initial_state eol before startLine)"
  by (simp add: inserting_def initial_state_def)

lemma diff_step_insert_cursor:
  "\<exists>st'. diff_step (DIFF_INSERT, txt) st = Inr st' \<and> cursor st' = cursor st"
  by (simp add: Let_def)

declare diff_step.simps [simp del]

section \<open>Failure of the synthesizer\<close>

lemma no_equal_keeps_inserting:
  "inserting st \<Longrightarrow> DIFF_EQUAL \<notin> fst ` set mid \<Longrightarrow> diff_loop mid st = Inr st' \<Longrightarrow> inserting st'"
proof (induction mid arbitrary: st)
  case Nil
  then show ?case by simp
next
  case (Cons d mid)
  obtain op t where d: "d = (op, t)" by (cases d)
  show ?case
  proof (cases op)
    case DIFF_DELETE
    with Cons.prems d diff_step_delete_fails [of t st] show ?thesis by simp
  next
    case DIFF_INSERT
    obtain s1 where "diff_step (DIFF_INSERT, t) st = Inr s1" "inserting s1"
      using diff_step_insert_ok by blast
    with Cons d DIFF_INSERT show ?thesis by simp
  next
    case DIFF_EQUAL
    with Cons.prems d show ?thesis by simp
  qed
qed

lemma delete_after_insert_fails:
  assumes "DIFF_EQUAL \<notin> fst ` set mid"
  shows "diff_loop (pre @ [(DIFF_INSERT, a)] @ mid @ [(DIFF_DELETE, b)] @ post) st = Inl InternalError"
proof (cases "diff_loop pre st")
  case (Inl e)
  then show ?thesis using diff_loop_error [OF Inl] by (simp add: diff_loop_append)
next
  case (Inr s0)
  obtain s1 where s1: "diff_step (DIFF_INSERT, a) s0 = Inr s1" "inserting s1"
    using diff_step_insert_ok by blast
  show ?thesis
  proof (cases "diff_loop mid s1")
    case (Inl e)
    with Inr s1 show ?thesis using diff_loop_error [OF Inl] by (simp add: diff_loop_append)
  next
    case r: (Inr s2)
    from no_equal_keeps_inserting [OF s1(2) assms r] have "inserting s2" .
    then have "diff_step (DIFF_DELETE, b) s2 = Inl InternalError"
      by (simp add: diff_step_delete_fails)
    with Inr s1 r show ?thesis by (simp add: diff_loop_append)
  qed
qed

lemma failure_has_delete_after_insert:
  "diff_loop ds st = Inl e \<Longrightarrow>
     (inserting st \<and> (\<exists>mid b post. ds = mid @ [(DIFF_DELETE, b)] @ post \<and> DIFF_EQUAL \<notin> fst ` set mid))
   \<or> (\<exists>pre a mid b post. ds = pre @ [(DIFF_INSERT, a)] @ mid @ [(DIFF_DELETE, b)] @ post
         \<and> DIFF_EQUAL \<notin> fst ` set mid)"
proof (induction ds arbitrary: st)
  case Nil
  then show ?case by simp
next
  case (Cons d ds)
  obtain op t where d: "d = (op, t)" by (cases d)
  show ?case
  proof (cases op)
    case DIFF_DELETE
    show ?thesis
    proof (cases "inserting st")
      case True
      have "d # ds = [] @ [(DIFF_DELETE, t)] @ ds \<and> DIFF_EQUAL \<notin> fst ` set []"
        using d DIFF_DELETE by simp
      with True show ?thesis by blast
    next
      case False
      then obtain s1 where s1: "diff_step (DIFF_DELETE, t) st = Inr s1"
        using diff_step_delete_fails [of t st] diff_step_error [of "(DIFF_DELETE, t)" st]
        by (cases "diff_step (DIFF_DELETE, t) st") auto
      then have "\<not> inserting s1" by (rule diff_step_delete_ok)
      moreover from Cons.prems d DIFF_DELETE s1 have "diff_loop ds s1 = Inl e" by simp
      ultimately obtain pre a mid b post where
        "ds = pre @ [(DIFF_INSERT, a)] @ mid @ [(DIFF_DELETE, b)] @ post" "DIFF_EQUAL \<notin> fst ` set mid"
        using Cons.IH by blast
      then have "d # ds = (d # pre) @ [(DIFF_INSERT, a)] @ mid @ [(DIFF_DELETE, b)] @ post
          \<and> DIFF_EQUAL \<notin> fst ` set mid" by simp
      then show ?thesis by blast
    qed
  next
    case DIFF_INSERT
    obtain s1 where s1: "diff_step (DIFF_INSERT, t) st = Inr s1" "inserting s1"
      using diff_step_insert_ok by blast
    with Cons.prems d DIFF_INSERT have "diff_loop ds s1 = Inl e" by simp
    from Cons.IH [OF this] show ?thesis
    proof
      assume "inserting s1 \<and> (\<exists>mid b post. ds = mid @ [(DIFF_DELETE, b)] @ post \<and> DIFF_EQUAL \<notin> fst ` set mid)"
      then obtain mid b post where "ds = mid @ [(DIFF_DELETE, b)] @ post" "DIFF_EQUAL \<notin> fst ` set mid"
        by blast
      then have "d # ds = [] @ [(DIFF_INSERT, t)] @ mid @ [(DIFF_DELETE, b)] @ post
          \<and> DIFF_EQUAL \<notin> fst ` set mid" using d DIFF_INSERT by simp
      then show ?thesis by blast
    next
      assume "\<exists>pre a mid b post. ds = pre @ [(DIFF_INSERT, a)] @ mid @ [(DIFF_DELETE, b)] @ post
         \<and> DIFF_EQUAL \<notin> fst ` set mid"
      then obtain pre a mid b post where
        "ds = pre @ [(DIFF_INSERT, a)] @ mid @ [(DIFF_DELETE, b)] @ post" "DIFF_EQUAL \<notin> fst ` set mid"
        by blast
      then have "d # ds = (d # pre) @ [(DIFF_INSERT, a)] @ mid @ [(DIFF_DELETE, b)] @ post
          \<and> DIFF_EQUAL \<notin> fst ` set mid" by simp
      then show ?thesis by blast
    qed
  next
    case DIFF_EQUAL
    obtain s1 where s1: "diff_step (DIFF_EQUAL, t) st = Inr s1" "\<not> inserting s1"
      using diff_step_equal_ok by blast
    with Cons.prems d DIFF_EQUAL have "diff_loop ds s1 = Inl e" by simp
    from Cons.IH [OF this] s1(2) obtain pre a mid b post where
        "ds = pre @ [(DIFF_INSERT, a)] @ mid @ [(DIFF_DELETE, b)] @ post" "DIFF_EQUAL \<notin> fst ` set mid"
      by blast
    then have "d # ds = (d # pre) @ [(DIFF_INSERT, a)] @ mid @ [(DIFF_DELETE, b)] @ post
          \<and> DIFF_EQUAL \<notin> fst ` set mid" by simp
    then show ?thesis by blast
  qed
qed

text \<open>
  C9. The synthesizer throws exactly when some delete follows an insert with no equal
  between the two, which is when a delete meets an edit in progress that is an insert
  or a replace; on every other sequence of diffs it returns its edits.
\<close>

theorem synthesizer_fails_iff_delete_after_insert:
  "(\<exists>e. getTextEditsInternal eol before ds startLine = Inl e) =
     (\<exists>pre a mid b post.
        ds = pre @ [(DIFF_INSERT, a)] @ mid @ [(DIFF_DELETE, b)] @ post
        \<and> DIFF_EQUAL \<notin> fst ` set mid)"
proof
  assume "\<exists>e. getTextEditsInternal eol before ds startLine = Inl e"
  then obtain e where "diff_loop ds (initial_state eol before startLine) = Inl e"
    by (auto simp: getTextEditsInternal_def split: sum.splits)
  from failure_has_delete_after_insert [OF this] initial_state_not_inserting
  show "\<exists>pre a mid b post.
        ds = pre @ [(DIFF_INSERT, a)] @ mid @ [(DIFF_DELETE, b)] @ post
        \<and> DIFF_EQUAL \<notin> fst ` set mid" by blast
next
  assume "\<exists>pre a mid b post.
        ds = pre @ [(DIFF_INSERT, a)] @ mid @ [(DIFF_DELETE, b)] @ post
        \<and> DIFF_EQUAL \<notin> fst ` set mid"
  then obtain pre a mid b post where
    "ds = pre @ [(DIFF_INSERT, a)] @ mid @ [(DIFF_DELETE, b)] @ post" "DIFF_EQUAL \<notin> fst ` set mid"
    by blast
  then show "\<exists>e. getTextEditsInternal eol before ds startLine = Inl e"
    using delete_after_insert_fails [of mid pre a b post]
    by (simp add: getTextEditsInternal_def)
qed

lemmas synth_eval =
  getTextEditsInternal_def synthesize_from_def initial_state_def initial_cursor_def
  initial_character_def diff_step.simps Let_def new_Edit_def finish_def

theorem synthesizer_fails_iff_delete_after_insert_witness:
  "(\<exists>e. getTextEditsInternal [CHR 0x0A] []
          [(DIFF_INSERT, ''a''), (DIFF_INSERT, ''c''), (DIFF_DELETE, ''b'')] 0 = Inl e)
   \<and> getTextEditsInternal [CHR 0x0A] []
        [(DIFF_DELETE, ''b''), (DIFF_INSERT, ''a''), (DIFF_EQUAL, ''c''), (DIFF_DELETE, ''b'')] 0 =
       Inr [\<lparr>action = Replace, start = \<lparr>line = 0, character = 0\<rparr>,
              endPos = Some \<lparr>line = 0, character = 1\<rparr>, etext = ''a''\<rparr>,
            \<lparr>action = Delete, start = \<lparr>line = 0, character = 2\<rparr>,
              endPos = Some \<lparr>line = 0, character = 3\<rparr>, etext = []\<rparr>]"
proof -
  have "[(DIFF_INSERT, ''a''), (DIFF_INSERT, ''c''), (DIFF_DELETE, ''b'')] =
      [] @ [(DIFF_INSERT, ''a'')] @ [(DIFF_INSERT, ''c'')] @ [(DIFF_DELETE, ''b'')] @ []
      \<and> DIFF_EQUAL \<notin> fst ` set [(DIFF_INSERT, ''c'')]" by simp
  then have "\<exists>pre a mid b post.
      [(DIFF_INSERT, ''a''), (DIFF_INSERT, ''c''), (DIFF_DELETE, ''b'')] =
        pre @ [(DIFF_INSERT, a)] @ mid @ [(DIFF_DELETE, b)] @ post
      \<and> DIFF_EQUAL \<notin> fst ` set mid" by blast
  then have "\<exists>e. getTextEditsInternal [CHR 0x0A] []
      [(DIFF_INSERT, ''a''), (DIFF_INSERT, ''c''), (DIFF_DELETE, ''b'')] 0 = Inl e"
    by (simp only: synthesizer_fails_iff_delete_after_insert)
  moreover have "getTextEditsInternal [CHR 0x0A] []
        [(DIFF_DELETE, ''b''), (DIFF_INSERT, ''a''), (DIFF_EQUAL, ''c''), (DIFF_DELETE, ''b'')] 0 =
       Inr [\<lparr>action = Replace, start = \<lparr>line = 0, character = 0\<rparr>,
              endPos = Some \<lparr>line = 0, character = 1\<rparr>, etext = ''a''\<rparr>,
            \<lparr>action = Delete, start = \<lparr>line = 0, character = 2\<rparr>,
              endPos = Some \<lparr>line = 0, character = 3\<rparr>, etext = []\<rparr>]"
    by (simp add: synth_eval)
  ultimately show ?thesis by blast
qed

section \<open>Inserts and the cursor\<close>



section \<open>Order of the edits\<close>

lemma pos_le_refl [simp]: "pos_le p p"
  by (simp add: pos_le_def)

lemma pos_le_trans: "pos_le p q \<Longrightarrow> pos_le q r \<Longrightarrow> pos_le p r"
  by (auto simp: pos_le_def)

lemma pos_le_advance: "pos_le p (advance t p)"
proof (induction t arbitrary: p)
  case Nil
  show ?case by simp
next
  case (Cons c t)
  have "pos_le p (if c \<noteq> CHR 0x0A then p\<lparr>character := character p + 1\<rparr>
                  else \<lparr>line = line p + 1, character = 0\<rparr>)"
    by (simp add: pos_le_def)
  from pos_le_trans [OF this Cons] show ?case by simp
qed

lemma in_order_snoc:
  "in_order (es @ [e]) =
     (in_order es \<and> list_all (\<lambda>a. pos_le (span_end a) (start e)) es \<and> pos_le (start e) (span_end e))"
  by (auto simp: in_order_def sorted_wrt_append list_all_iff)

lemma list_all_pos_le_trans:
  "list_all (\<lambda>e. pos_le (f e) p) es \<Longrightarrow> pos_le p q \<Longrightarrow> list_all (\<lambda>e. pos_le (f e) q) es"
  by (auto simp: list_all_iff intro: pos_le_trans)

lemma span_end_simps [simp]:
  "span_end (e\<lparr>action := a\<rparr>) = span_end e"
  "span_end (e\<lparr>etext := t\<rparr>) = span_end e"
  "span_end (e\<lparr>endPos := Some p\<rparr>) = p"
  "span_end (new_Edit a s) = s"
  by (simp_all add: span_end_def new_Edit_def split: option.splits)

lemma start_new_Edit [simp]: "start (new_Edit a s) = s"
  by (simp add: new_Edit_def)

lemma ordered_step:
  assumes "ordered_state st" "diff_step d st = Inr st'"
  shows "ordered_state st'"
proof -
  obtain op t where d: "d = (op, t)" by (cases d)
  let ?c = "cursor st" and ?p = "advance t (cursor st)"
  have cp: "pos_le ?c ?p" by (rule pos_le_advance)
  show ?thesis
  proof (cases "edit st")
    case None
    with assms(1) have es: "in_order (edits st)" "list_all (\<lambda>e. pos_le (span_end e) ?c) (edits st)"
      by (simp_all add: ordered_state_def finish_def)
    from list_all_pos_le_trans [OF es(2) cp]
    have es': "list_all (\<lambda>e. pos_le (span_end e) ?p) (edits st)" .
    show ?thesis
    proof (cases op)
      case DIFF_DELETE
      with assms(2) d None es es' cp show ?thesis
        by (auto simp: diff_step.simps Let_def ordered_state_def finish_def in_order_snoc)
    next
      case DIFF_INSERT
      with assms(2) d None es show ?thesis
        by (auto simp: diff_step.simps Let_def ordered_state_def finish_def in_order_snoc)
    next
      case DIFF_EQUAL
      with assms(2) d None es es' show ?thesis
        by (auto simp: diff_step.simps Let_def ordered_state_def finish_def)
    qed
  next
    case (Some e)
    with assms(1) have es: "in_order (edits st)"
        "list_all (\<lambda>a. pos_le (span_end a) (start e)) (edits st)"
        "pos_le (start e) (span_end e)" "pos_le (span_end e) ?c"
        "list_all (\<lambda>e. pos_le (span_end e) ?c) (edits st)"
      by (simp_all add: ordered_state_def finish_def in_order_snoc)
    from list_all_pos_le_trans [OF es(5) cp]
    have es': "list_all (\<lambda>e. pos_le (span_end e) ?p) (edits st)" .
    have sp: "pos_le (start e) ?p"
      using pos_le_trans [OF es(3) pos_le_trans [OF es(4) cp]] .
    have ep: "pos_le (span_end e) ?p" using pos_le_trans [OF es(4) cp] .
    show ?thesis
    proof (cases op)
      case DIFF_DELETE
      with assms(2) d Some es es' sp show ?thesis
        by (auto simp: diff_step.simps Let_def ordered_state_def finish_def
            in_order_snoc split: if_splits)
    next
      case DIFF_INSERT
      with assms(2) d Some es show ?thesis
        by (auto simp: diff_step.simps Let_def ordered_state_def finish_def
            in_order_snoc split: if_splits)
    next
      case DIFF_EQUAL
      with assms(2) d Some es es' ep show ?thesis
        by (auto simp: diff_step.simps Let_def ordered_state_def finish_def in_order_snoc)
    qed
  qed
qed

lemma ordered_loop:
  "ordered_state st \<Longrightarrow> diff_loop ds st = Inr st' \<Longrightarrow> ordered_state st'"
  by (induction ds arbitrary: st) (auto split: sum.splits intro: ordered_step)

lemma in_order_starts:
  "in_order es \<Longrightarrow> sorted_wrt (\<lambda>a b. pos_le (start a) (start b)) es"
proof (induction es)
  case Nil
  show ?case by simp
next
  case (Cons e es)
  then have "in_order es" by (simp add: in_order_def)
  moreover from Cons.prems have "\<forall>b\<in>set es. pos_le (start e) (start b)"
    by (auto simp: in_order_def intro: pos_le_trans)
  ultimately show ?case using Cons.IH by simp
qed

text \<open>
  C2. The edits the synthesizer returns have non-decreasing start positions in document
  order, and no two of them overlap: every edit ends at or before the start of each
  later one, and none ends before its own start. This holds for every sequence of diffs
  on which the synthesizer returns.
\<close>

theorem returned_edits_ordered_disjoint:
  assumes "getTextEditsInternal eol before ds startLine = Inr es"
  shows "sorted_wrt (\<lambda>a b. pos_le (start a) (start b)) es
       \<and> sorted_wrt (\<lambda>a b. pos_le (span_end a) (start b)) es
       \<and> list_all (\<lambda>e. pos_le (start e) (span_end e)) es"
proof -
  from assms obtain st where st: "diff_loop ds (initial_state eol before startLine) = Inr st"
      "es = finish st"
    by (auto simp: getTextEditsInternal_def split: sum.splits)
  have "ordered_state (initial_state eol before startLine)"
    by (simp add: ordered_state_def initial_state_def finish_def in_order_def)
  from ordered_loop [OF this st(1)] st(2) have "in_order es" by (simp add: ordered_state_def)
  with in_order_starts [OF this] show ?thesis by (simp add: in_order_def)
qed

theorem returned_edits_ordered_disjoint_witness:
  "getTextEditsInternal [CHR 0x0A] []
     [(DIFF_DELETE, ''a''), (DIFF_EQUAL, ''b''), (DIFF_INSERT, ''c''), (DIFF_EQUAL, ''d'')] 0 =
     Inr [\<lparr>action = Delete, start = \<lparr>line = 0, character = 0\<rparr>,
            endPos = Some \<lparr>line = 0, character = 1\<rparr>, etext = []\<rparr>,
          \<lparr>action = Insert, start = \<lparr>line = 0, character = 2\<rparr>,
            endPos = None, etext = ''c''\<rparr>]
   \<and> sorted_wrt (\<lambda>a b. pos_le (start a) (start b))
       [\<lparr>action = Delete, start = \<lparr>line = 0, character = 0\<rparr>,
            endPos = Some \<lparr>line = 0, character = 1\<rparr>, etext = []\<rparr>,
          \<lparr>action = Insert, start = \<lparr>line = 0, character = 2\<rparr>,
            endPos = None, etext = ''c''\<rparr>]
   \<and> sorted_wrt (\<lambda>a b. pos_le (span_end a) (start b))
       [\<lparr>action = Delete, start = \<lparr>line = 0, character = 0\<rparr>,
            endPos = Some \<lparr>line = 0, character = 1\<rparr>, etext = []\<rparr>,
          \<lparr>action = Insert, start = \<lparr>line = 0, character = 2\<rparr>,
            endPos = None, etext = ''c''\<rparr>]"
proof -
  have h: "getTextEditsInternal [CHR 0x0A] []
     [(DIFF_DELETE, ''a''), (DIFF_EQUAL, ''b''), (DIFF_INSERT, ''c''), (DIFF_EQUAL, ''d'')] 0 =
     Inr [\<lparr>action = Delete, start = \<lparr>line = 0, character = 0\<rparr>,
            endPos = Some \<lparr>line = 0, character = 1\<rparr>, etext = []\<rparr>,
          \<lparr>action = Insert, start = \<lparr>line = 0, character = 2\<rparr>,
            endPos = None, etext = ''c''\<rparr>]"
    by (simp add: synth_eval)
  from returned_edits_ordered_disjoint [OF h] h show ?thesis by blast
qed

section \<open>Runs of deletes and inserts\<close>


lemma advance_append: "advance (a @ b) p = advance b (advance a p)"
  by (induction a arbitrary: p) simp_all

lemma diff_step_frame:
  "diff_step d (st\<lparr>edits := E @ edits st\<rparr>) =
     (case diff_step d st of Inl e \<Rightarrow> Inl e | Inr st' \<Rightarrow> Inr (st'\<lparr>edits := E @ edits st'\<rparr>))"
  by (cases d; cases "fst d")
     (auto simp: diff_step.simps Let_def split: option.splits)

lemma diff_loop_frame:
  "diff_loop ds (st\<lparr>edits := E @ edits st\<rparr>) =
     (case diff_loop ds st of Inl e \<Rightarrow> Inl e | Inr st' \<Rightarrow> Inr (st'\<lparr>edits := E @ edits st'\<rparr>))"
proof (induction ds arbitrary: st)
  case Nil
  show ?case by simp
next
  case (Cons d ds)
  show ?case
    by (cases "diff_step d st") (simp_all add: diff_step_frame Cons)
qed

lemma finish_frame: "finish (st\<lparr>edits := E @ edits st\<rparr>) = E @ finish st"
  by (simp add: finish_def split: option.splits)

text \<open>The loop from a state with no edit in progress, by the loop from the cursor alone.\<close>

lemma diff_loop_from_idle:
  assumes "edit st = None"
  shows "diff_loop ds st =
     (case diff_loop ds \<lparr>cursor = cursor st, edits = [], edit = None\<rparr> of
        Inl e \<Rightarrow> Inl e | Inr st' \<Rightarrow> Inr (st'\<lparr>edits := edits st @ edits st'\<rparr>))"
proof -
  let ?s0 = "\<lparr>cursor = cursor st, edits = [], edit = None\<rparr>"
  have "st = ?s0\<lparr>edits := edits st @ edits ?s0\<rparr>" using assms by simp
  then have "diff_loop ds st = diff_loop ds (?s0\<lparr>edits := edits st @ edits ?s0\<rparr>)" by simp
  then show ?thesis by (simp only: diff_loop_frame)
qed

lemma delete_run:
  assumes "\<forall>d\<in>set dels. fst d = DIFF_DELETE" "edit st = Some e" "action e = Delete" "dels \<noteq> []"
  shows "diff_loop dels st =
     Inr (st\<lparr>cursor := advance (concat (map snd dels)) (cursor st),
             edit := Some (e\<lparr>endPos := Some (advance (concat (map snd dels)) (cursor st))\<rparr>)\<rparr>)"
  using assms
proof (induction dels arbitrary: st e)
  case Nil
  then show ?case by simp
next
  case (Cons d dels)
  then obtain t where d: "d = (DIFF_DELETE, t)" by (cases d) auto
  let ?p = "advance t (cursor st)"
  let ?s1 = "st\<lparr>cursor := ?p, edit := Some (e\<lparr>endPos := Some ?p\<rparr>)\<rparr>"
  have step: "diff_step d st = Inr ?s1"
    using Cons.prems d by (simp add: diff_step.simps Let_def)
  show ?case
  proof (cases "dels = []")
    case True
    with step d show ?thesis by simp
  next
    case False
    have "diff_loop dels ?s1 =
       Inr (?s1\<lparr>cursor := advance (concat (map snd dels)) (cursor ?s1),
             edit := Some ((e\<lparr>endPos := Some ?p\<rparr>)\<lparr>endPos := Some (advance (concat (map snd dels)) (cursor ?s1))\<rparr>)\<rparr>)"
      using Cons.prems False by (intro Cons.IH) simp_all
    with step d show ?thesis by (simp add: advance_append)
  qed
qed

lemma delete_run_idle:
  assumes "\<forall>d\<in>set dels. fst d = DIFF_DELETE" "edit st = None" "dels \<noteq> []"
  shows "diff_loop dels st =
     Inr (st\<lparr>cursor := advance (concat (map snd dels)) (cursor st),
             edit := Some \<lparr>action = Delete, start = cursor st,
                           endPos = Some (advance (concat (map snd dels)) (cursor st)),
                           etext = []\<rparr>\<rparr>)"
proof -
  from assms obtain t rest where dels: "dels = (DIFF_DELETE, t) # rest"
    by (cases dels) (auto simp: prod_eq_iff)
  let ?p = "advance t (cursor st)"
  let ?e = "\<lparr>action = Delete, start = cursor st, endPos = Some ?p, etext = []\<rparr>"
  let ?s1 = "st\<lparr>cursor := ?p, edit := Some ?e\<rparr>"
  have step: "diff_step (DIFF_DELETE, t) st = Inr ?s1"
    using assms(2) by (simp add: diff_step.simps Let_def new_Edit_def)
  show ?thesis
  proof (cases "rest = []")
    case True
    with step dels show ?thesis by simp
  next
    case False
    have "diff_loop rest ?s1 =
       Inr (?s1\<lparr>cursor := advance (concat (map snd rest)) (cursor ?s1),
             edit := Some (?e\<lparr>endPos := Some (advance (concat (map snd rest)) (cursor ?s1))\<rparr>)\<rparr>)"
      using assms(1) dels False by (intro delete_run) simp_all
    with step dels show ?thesis by (simp add: advance_append)
  qed
qed

lemma insert_run:
  assumes "\<forall>d\<in>set inss. fst d = DIFF_INSERT" "edit st = Some e" "inss \<noteq> []"
  shows "diff_loop inss st =
     Inr (st\<lparr>edit := Some (e\<lparr>action := (if action e = Delete then Replace else action e),
                               etext := etext e @ concat (map snd inss)\<rparr>)\<rparr>)"
  using assms
proof (induction inss arbitrary: st e)
  case Nil
  then show ?case by simp
next
  case (Cons d inss)
  then obtain t where d: "d = (DIFF_INSERT, t)" by (cases d) auto
  let ?e1 = "e\<lparr>action := (if action e = Delete then Replace else action e), etext := etext e @ t\<rparr>"
  let ?s1 = "st\<lparr>edit := Some ?e1\<rparr>"
  have step: "diff_step d st = Inr ?s1"
    using Cons.prems d by (simp add: diff_step.simps Let_def)
  show ?case
  proof (cases "inss = []")
    case True
    with step d show ?thesis by simp
  next
    case False
    have "diff_loop inss ?s1 =
       Inr (?s1\<lparr>edit := Some (?e1\<lparr>action := (if action ?e1 = Delete then Replace else action ?e1),
                               etext := etext ?e1 @ concat (map snd inss)\<rparr>)\<rparr>)"
      using Cons.prems False by (intro Cons.IH) simp_all
    with step d show ?thesis by simp
  qed
qed

lemma insert_run_idle:
  assumes "\<forall>d\<in>set inss. fst d = DIFF_INSERT" "edit st = None" "inss \<noteq> []"
  shows "diff_loop inss st =
     Inr (st\<lparr>edit := Some \<lparr>action = Insert, start = cursor st, endPos = None,
                           etext = concat (map snd inss)\<rparr>\<rparr>)"
proof -
  from assms obtain t rest where inss: "inss = (DIFF_INSERT, t) # rest"
    by (cases inss) (auto simp: prod_eq_iff)
  let ?e = "\<lparr>action = Insert, start = cursor st, endPos = None, etext = t\<rparr>"
  let ?s1 = "st\<lparr>edit := Some ?e\<rparr>"
  have step: "diff_step (DIFF_INSERT, t) st = Inr ?s1"
    using assms(2) by (simp add: diff_step.simps Let_def new_Edit_def)
  show ?thesis
  proof (cases "rest = []")
    case True
    with step inss show ?thesis by simp
  next
    case False
    have "diff_loop rest ?s1 =
       Inr (?s1\<lparr>edit := Some (?e\<lparr>action := (if action ?e = Delete then Replace else action ?e),
                               etext := etext ?e @ concat (map snd rest)\<rparr>)\<rparr>)"
      using assms(1) inss False by (intro insert_run) simp_all
    with step inss show ?thesis by simp
  qed
qed

text \<open>After a sequence that is empty or ends with an equal, no edit is in progress.\<close>

lemma idle_after_equal:
  assumes "diff_loop pre st = Inr st'" "edit st = None" "pre = [] \<or> fst (last pre) = DIFF_EQUAL"
  shows "edit st' = None"
proof (cases "pre = []")
  case True
  with assms show ?thesis by simp
next
  case False
  with assms(3) obtain t where "last pre = (DIFF_EQUAL, t)" by (cases "last pre") auto
  with False have pre: "pre = butlast pre @ [(DIFF_EQUAL, t)]"
    by (metis append_butlast_last_id)
  from assms(1) obtain s1 where "diff_loop (butlast pre) st = Inr s1"
      "diff_step (DIFF_EQUAL, t) s1 = Inr st'"
    by (subst (asm) pre) (auto simp: diff_loop_append split: sum.splits)
  then show ?thesis by (auto simp: diff_step.simps Let_def split: option.splits)
qed

text \<open>Closing an edit in progress: what is left of the loop when the rest is empty or
  begins with an equal.\<close>

lemma close_edit:
  assumes "edit st = Some e" "post = [] \<or> fst (hd post) = DIFF_EQUAL"
    "synthesize_from (cursor st) post = Inr es2"
  shows "\<exists>st'. diff_loop post st = Inr st' \<and> finish st' = edits st @ [e] @ es2"
proof (cases post)
  case Nil
  with assms show ?thesis by (simp add: finish_def synthesize_from_def)
next
  case (Cons d rest)
  with assms(2) obtain t where d: "d = (DIFF_EQUAL, t)" by (cases d) auto
  let ?p = "advance t (cursor st)"
  let ?s0 = "\<lparr>cursor = cursor st, edits = [], edit = None\<rparr>"
  let ?i1 = "\<lparr>cursor = ?p, edits = [], edit = None\<rparr>"
  let ?s1 = "st\<lparr>cursor := ?p, edits := edits st @ [e], edit := None\<rparr>"
  have step: "diff_step d st = Inr ?s1"
    using assms(1) d by (simp add: diff_step.simps Let_def)
  have step0: "diff_step d ?s0 = Inr ?i1"
    using d by (simp add: diff_step.simps Let_def)
  from assms(3) Cons step0 obtain s2 where s2: "diff_loop rest ?i1 = Inr s2" "es2 = finish s2"
    by (auto simp: synthesize_from_def split: sum.splits)
  have "diff_loop rest ?s1 = Inr (s2\<lparr>edits := edits ?s1 @ edits s2\<rparr>)"
    using diff_loop_from_idle [of ?s1 rest] s2(1) by simp
  moreover have "finish (s2\<lparr>edits := edits ?s1 @ edits s2\<rparr>) = edits ?s1 @ finish s2"
    by (rule finish_frame)
  ultimately show ?thesis using step Cons s2(2) by simp
qed

text \<open>
  C3, as the claim states it: in the diffs \<open>Delete a\<close>, \<open>Delete b\<close>, \<open>Insert c\<close>,
  \<open>Insert d\<close> (each text with its line feed) the delete of \<open>b\<close> is directly followed
  by the insert of \<open>c\<close>. That delete is read at line 1, but the one replace edit starts
  at line 0, where the first delete began, and its text is both inserts' texts.
\<close>

theorem delete_insert_pair_not_alone:
  "getTextEditsInternal [CHR 0x0A] []
     [(DIFF_DELETE, ''a'' @ [CHR 0x0A]), (DIFF_DELETE, ''b'' @ [CHR 0x0A]),
      (DIFF_INSERT, ''c'' @ [CHR 0x0A]), (DIFF_INSERT, ''d'' @ [CHR 0x0A])] 0 =
     Inr [\<lparr>action = Replace, start = \<lparr>line = 0, character = 0\<rparr>,
            endPos = Some \<lparr>line = 2, character = 0\<rparr>,
            etext = ''c'' @ [CHR 0x0A] @ ''d'' @ [CHR 0x0A]\<rparr>]
   \<and> map_sum id cursor
       (diff_loop [(DIFF_DELETE, ''a'' @ [CHR 0x0A])] (initial_state [CHR 0x0A] [] 0)) =
     Inr \<lparr>line = 1, character = 0\<rparr>"
  by (simp add: synth_eval)

text \<open>
  C3, amended. A run of one or more deletes directly followed by a run of one or more
  inserts, the deletes at the start of the diffs or after an equal and the inserts at
  the end of the diffs or before an equal, gives exactly one replace edit between the
  edits of the diffs before the run and the edits of the diffs after it: it starts at
  the cursor of the first delete, ends at the cursor after the texts of all the deletes,
  and its text is the texts of all the inserts, in order. A single delete followed by a
  single insert is the case the claim names.
\<close>

theorem delete_insert_run_one_replace:
  assumes pre: "diff_loop pre (initial_state eol before startLine) = Inr st"
      "pre = [] \<or> fst (last pre) = DIFF_EQUAL"
    and dels: "dels \<noteq> []" "\<forall>d\<in>set dels. fst d = DIFF_DELETE"
    and inss: "inss \<noteq> []" "\<forall>d\<in>set inss. fst d = DIFF_INSERT"
    and post: "post = [] \<or> fst (hd post) = DIFF_EQUAL"
      "synthesize_from (advance (concat (map snd dels)) (cursor st)) post = Inr es2"
  shows "getTextEditsInternal eol before (pre @ dels @ inss @ post) startLine =
     Inr (finish st @
          [\<lparr>action = Replace, start = cursor st,
            endPos = Some (advance (concat (map snd dels)) (cursor st)),
            etext = concat (map snd inss)\<rparr>] @ es2)"
proof -
  let ?q = "advance (concat (map snd dels)) (cursor st)"
  let ?d = "\<lparr>action = Delete, start = cursor st, endPos = Some ?q, etext = []\<rparr>"
  let ?r = "\<lparr>action = Replace, start = cursor st, endPos = Some ?q, etext = concat (map snd inss)\<rparr>"
  have idle: "edit st = None"
    using idle_after_equal [OF pre(1) _ pre(2)] by (simp add: initial_state_def)
  let ?s1 = "st\<lparr>cursor := ?q, edit := Some ?d\<rparr>"
  have s1: "diff_loop dels st = Inr ?s1"
    using delete_run_idle [OF dels(2) idle dels(1)] .
  let ?s2 = "st\<lparr>cursor := ?q, edit := Some ?r\<rparr>"
  have s2: "diff_loop inss ?s1 = Inr ?s2"
    using insert_run [OF inss(2) _ inss(1), of ?s1 ?d] by simp
  obtain s3 where s3: "diff_loop post ?s2 = Inr s3" "finish s3 = edits ?s2 @ [?r] @ es2"
    using close_edit [of ?s2 ?r post es2] post by auto
  from idle have "finish st = edits st" by (simp add: finish_def)
  with pre(1) s1 s2 s3 show ?thesis
    by (simp add: getTextEditsInternal_def diff_loop_append)
qed


theorem delete_insert_run_one_replace_witness:
  "getTextEditsInternal [CHR 0x0A] ''foo'' [(DIFF_DELETE, ''foo''), (DIFF_INSERT, ''bar'')] 0 =
     Inr [\<lparr>action = Replace, start = \<lparr>line = 0, character = 0\<rparr>,
            endPos = Some \<lparr>line = 0, character = 3\<rparr>, etext = ''bar''\<rparr>]"
proof -
  have "getTextEditsInternal [CHR 0x0A] ''foo''
      ([] @ [(DIFF_DELETE, ''foo'')] @ [(DIFF_INSERT, ''bar'')] @ []) 0 =
     Inr (finish (initial_state [CHR 0x0A] ''foo'' 0) @
          [\<lparr>action = Replace, start = cursor (initial_state [CHR 0x0A] ''foo'' 0),
            endPos = Some (advance (concat (map snd [(DIFF_DELETE, ''foo'')]))
                             (cursor (initial_state [CHR 0x0A] ''foo'' 0))),
            etext = concat (map snd [(DIFF_INSERT, ''bar'')])\<rparr>] @ [])"
    by (rule delete_insert_run_one_replace) (simp_all add: synthesize_from_def finish_def)
  then show ?thesis by (simp add: synth_eval)
qed

text \<open>
  C10, as the claim states it: in the diffs \<open>Delete a\<close>, \<open>Insert b\<close>, \<open>Insert c\<close> the two
  inserts are consecutive, and the first is read at character 1; the synthesizer emits
  no insert edit, but one replace edit that starts at character 0.
\<close>

theorem inserts_after_delete_no_insert_edit:
  "getTextEditsInternal [CHR 0x0A] []
     [(DIFF_DELETE, ''a''), (DIFF_INSERT, ''b''), (DIFF_INSERT, ''c'')] 0 =
     Inr [\<lparr>action = Replace, start = \<lparr>line = 0, character = 0\<rparr>,
            endPos = Some \<lparr>line = 0, character = 1\<rparr>, etext = ''bc''\<rparr>]
   \<and> map_sum id cursor
       (diff_loop [(DIFF_DELETE, ''a'')] (initial_state [CHR 0x0A] [] 0)) =
     Inr \<lparr>line = 0, character = 1\<rparr>"
  by (simp add: synth_eval)

text \<open>
  C10, amended. A run of inserts that stands at the start of the diffs or after an equal,
  and at the end of the diffs or before an equal, gives exactly one insert edit between
  the edits of the diffs before the run and the edits of the diffs after it: it is
  anchored at the cursor of the first insert, its text is the texts of all the inserts,
  in order, and the diffs after the run are read from that same cursor.
\<close>

theorem insert_run_one_insert:
  assumes pre: "diff_loop pre (initial_state eol before startLine) = Inr st"
      "pre = [] \<or> fst (last pre) = DIFF_EQUAL"
    and inss: "inss \<noteq> []" "\<forall>d\<in>set inss. fst d = DIFF_INSERT"
    and post: "post = [] \<or> fst (hd post) = DIFF_EQUAL"
      "synthesize_from (cursor st) post = Inr es2"
  shows "getTextEditsInternal eol before (pre @ inss @ post) startLine =
     Inr (finish st @
          [\<lparr>action = Insert, start = cursor st, endPos = None,
            etext = concat (map snd inss)\<rparr>] @ es2)"
proof -
  let ?r = "\<lparr>action = Insert, start = cursor st, endPos = None, etext = concat (map snd inss)\<rparr>"
  have idle: "edit st = None"
    using idle_after_equal [OF pre(1) _ pre(2)] by (simp add: initial_state_def)
  let ?s2 = "st\<lparr>edit := Some ?r\<rparr>"
  have s2: "diff_loop inss st = Inr ?s2"
    using insert_run_idle [OF inss(2) idle inss(1)] .
  obtain s3 where s3: "diff_loop post ?s2 = Inr s3" "finish s3 = edits ?s2 @ [?r] @ es2"
    using close_edit [of ?s2 ?r post es2] post by auto
  from idle have "finish st = edits st" by (simp add: finish_def)
  with pre(1) s2 s3 show ?thesis
    by (simp add: getTextEditsInternal_def diff_loop_append)
qed


theorem insert_run_one_insert_witness:
  "getTextEditsInternal [CHR 0x0A] []
     [(DIFF_EQUAL, ''x''), (DIFF_INSERT, ''a''), (DIFF_INSERT, ''b''), (DIFF_EQUAL, ''y'')] 0 =
     Inr [\<lparr>action = Insert, start = \<lparr>line = 0, character = 1\<rparr>, endPos = None,
            etext = ''ab''\<rparr>]"
proof -
  have pre: "diff_loop [(DIFF_EQUAL, ''x'')] (initial_state [CHR 0x0A] [] 0) =
      Inr \<lparr>cursor = \<lparr>line = 0, character = 1\<rparr>, edits = [], edit = None\<rparr>"
    by (simp add: synth_eval)
  have "getTextEditsInternal [CHR 0x0A] []
      ([(DIFF_EQUAL, ''x'')] @ [(DIFF_INSERT, ''a''), (DIFF_INSERT, ''b'')] @ [(DIFF_EQUAL, ''y'')]) 0 =
     Inr (finish \<lparr>cursor = \<lparr>line = 0, character = 1\<rparr>, edits = [], edit = None\<rparr> @
          [\<lparr>action = Insert,
            start = cursor \<lparr>cursor = \<lparr>line = 0, character = 1\<rparr>, edits = [], edit = None\<rparr>,
            endPos = None,
            etext = concat (map snd [(DIFF_INSERT, ''a''), (DIFF_INSERT, ''b'')])\<rparr>] @ [])"
    by (rule insert_run_one_insert [OF pre]) (simp_all add: synth_eval)
  then show ?thesis by (simp add: finish_def)
qed

section \<open>Hunk headers\<close>



lemma strip_prefix_append: "strip_prefix p (p @ s) = Some s"
  by (induction p) simp_all

lemma takeWhile_digits:
  "list_all is_digit a \<Longrightarrow> r = [] \<or> \<not> is_digit (hd r) \<Longrightarrow> takeWhile is_digit (a @ r) = a"
  by (cases r) (auto simp: list_all_iff takeWhile_append2)

lemma dropWhile_digits:
  "list_all is_digit a \<Longrightarrow> r = [] \<or> \<not> is_digit (hd r) \<Longrightarrow> dropWhile is_digit (a @ r) = r"
  by (cases r) (auto simp: list_all_iff dropWhile_append2)

lemma header_half_text:
  assumes "list_all is_digit s" "s \<noteq> []" "list_all is_digit l"
    "r \<noteq> []" "\<not> is_digit (hd r)" "hd r \<noteq> CHR '',''"
  shows "header_half (half_text s l @ r) = Some (s, l, r)"
proof (cases "l = []")
  case True
  from assms have "takeWhile is_digit (s @ r) = s" "dropWhile is_digit (s @ r) = r"
    by (simp_all add: takeWhile_digits dropWhile_digits)
  moreover from assms have "takeWhile is_digit r = []" "dropWhile is_digit r = r"
    by (cases r; simp)+
  ultimately show ?thesis using True assms
    by (cases r) (simp_all add: header_half_def half_text_def Let_def)
next
  case False
  have nd: "\<not> is_digit CHR '',''" by (simp add: is_digit_def)
  from assms nd have "takeWhile is_digit (s @ CHR '','' # l @ r) = s"
      "dropWhile is_digit (s @ CHR '','' # l @ r) = CHR '','' # l @ r"
    by (simp_all add: takeWhile_digits dropWhile_digits)
  moreover from assms have "takeWhile is_digit (l @ r) = l" "dropWhile is_digit (l @ r) = r"
    by (simp_all add: takeWhile_digits dropWhile_digits)
  ultimately show ?thesis using False assms
    by (simp add: header_half_def half_text_def Let_def)
qed

lemma patchHeader_header_text:
  assumes "list_all is_digit a" "a \<noteq> []" "list_all is_digit b"
    "list_all is_digit c" "c \<noteq> []" "list_all is_digit d"
  shows "patchHeader (header_text a b c d) = Some (a, b, c, d)"
proof -
  define t1 where "t1 = '' @@''"
  define t2 where "t2 = '' +'' @ half_text c d @ t1"
  have sp: "\<not> is_digit CHR '' ''" by (simp add: is_digit_def)
  have t1: "t1 \<noteq> []" "hd t1 = CHR '' ''" by (simp_all add: t1_def)
  have t2: "t2 \<noteq> []" "hd t2 = CHR '' ''" by (simp_all add: t2_def)
  have h1: "header_half (half_text a b @ t2) = Some (a, b, t2)"
    using assms(1-3) t2 sp by (intro header_half_text) simp_all
  have h2: "header_half (half_text c d @ t1) = Some (c, d, t1)"
    using assms(4-6) t1 sp by (intro header_half_text) simp_all
  have s1: "strip_prefix ''@@ -'' (''@@ -'' @ (half_text a b @ t2)) = Some (half_text a b @ t2)"
    by (rule strip_prefix_append)
  have s2: "strip_prefix '' +'' t2 = Some (half_text c d @ t1)"
    unfolding t2_def by (rule strip_prefix_append)
  have "header_text a b c d = ''@@ -'' @ (half_text a b @ t2)"
    by (simp add: header_text_def t2_def t1_def)
  then have "patchHeader (header_text a b c d) =
      (case strip_prefix ''@@ -'' (''@@ -'' @ (half_text a b @ t2)) of
        None \<Rightarrow> None
      | Some r0 \<Rightarrow>
         (case header_half r0 of
            None \<Rightarrow> None
          | Some (m1, m2, r1) \<Rightarrow>
             (case strip_prefix '' +'' r1 of
                None \<Rightarrow> None
              | Some r2 \<Rightarrow>
                 (case header_half r2 of
                    None \<Rightarrow> None
                  | Some (m3, m4, r3) \<Rightarrow>
                      if r3 = '' @@'' then Some (m1, m2, m3, m4) else None))))"
    by (simp only: patchHeader_def)
  also have "\<dots> = (if t1 = '' @@'' then Some (a, b, c, d) else None)"
    by (simp only: s1 h1 s2 h2 option.case prod.case)
  also have "\<dots> = Some (a, b, c, d)"
    by (simp add: t1_def)
  finally show ?thesis .
qed











lemmas parse_eval =
  patch_fromText_def patchHeader_def header_half_def header_patch_def header_span_def
  parseInt_def digit_value_def is_digit_def Let_def





section \<open>The parser against the patch grammar\<close>


lemma hunk_bad_pair: "hunk_bad (h, cs) = (\<not> is_header h \<or> list_ex bad_sign cs)"
  by (simp add: hunk_bad_def)

lemma sign_cases:
  "take 1 l = ''-'' \<or> take 1 l = ''+'' \<or> take 1 l = '' '' \<or> take 1 l = ''@'' \<or> take 1 l = []
   \<or> bad_sign l"
  by (auto simp: bad_sign_def)

lemma content_loop_ok:
  "\<not> list_ex bad_sign (takeWhile not_at ls) \<Longrightarrow>
     content_loop ls ds =
       Inr (ds @ List.map_filter line_diff (takeWhile not_at ls), dropWhile not_at ls)"
proof (induction ls arbitrary: ds)
  case Nil
  show ?case by (simp add: map_filter_simps)
next
  case (Cons l ls)
  show ?case
  proof (cases "not_at l")
    case False
    then show ?thesis by (simp add: not_at_def Let_def map_filter_simps)
  next
    case True
    with Cons.prems have ok: "\<not> bad_sign l" "\<not> list_ex bad_sign (takeWhile not_at ls)"
      by simp_all
    note ih = Cons.IH [OF ok(2)]
    from ok(1) True consider "take 1 l = ''-''" | "take 1 l = ''+''" | "take 1 l = '' ''"
      | "take 1 l = []"
      using sign_cases [of l] by (auto simp: not_at_def)
    then show ?thesis
    proof cases
      case 1
      with True ih [of "ds @ [(DIFF_DELETE, drop 1 l)]"] show ?thesis
        by (simp add: Let_def map_filter_simps line_diff_def)
    next
      case 2
      with True ih [of "ds @ [(DIFF_INSERT, drop 1 l)]"] show ?thesis
        by (simp add: Let_def map_filter_simps line_diff_def)
    next
      case 3
      with True ih [of "ds @ [(DIFF_EQUAL, drop 1 l)]"] show ?thesis
        by (simp add: Let_def map_filter_simps line_diff_def)
    next
      case 4
      with True ih [of ds] show ?thesis
        by (simp add: Let_def map_filter_simps line_diff_def)
    qed
  qed
qed

lemma content_loop_bad:
  "list_ex bad_sign (takeWhile not_at ls) \<Longrightarrow> \<exists>e. content_loop ls ds = Inl e"
proof (induction ls arbitrary: ds)
  case Nil
  then show ?case by simp
next
  case (Cons l ls)
  show ?case
  proof (cases "not_at l")
    case False
    with Cons.prems show ?thesis by simp
  next
    case True
    show ?thesis
    proof (cases "bad_sign l")
      case b: True
      then show ?thesis by (simp add: bad_sign_def Let_def)
    next
      case b: False
      with Cons.prems True have "list_ex bad_sign (takeWhile not_at ls)" by simp
      note ih = Cons.IH [OF this]
      from b True consider "take 1 l = ''-''" | "take 1 l = ''+''" | "take 1 l = '' ''"
        | "take 1 l = []"
        using sign_cases [of l] by (auto simp: not_at_def)
      then show ?thesis
      proof cases
        case 1
        with ih [of "ds @ [(DIFF_DELETE, drop 1 l)]"] show ?thesis by (simp add: Let_def)
      next
        case 2
        with ih [of "ds @ [(DIFF_INSERT, drop 1 l)]"] show ?thesis by (simp add: Let_def)
      next
        case 3
        with ih [of "ds @ [(DIFF_EQUAL, drop 1 l)]"] show ?thesis by (simp add: Let_def)
      next
        case 4
        with ih [of ds] show ?thesis by (simp add: Let_def)
      qed
    qed
  qed
qed

lemma patch_loop_bad:
  "list_ex hunk_bad (hunks ls) \<Longrightarrow> \<exists>e. patch_loop ls acc = Inl e"
proof (induction ls arbitrary: acc rule: hunks.induct)
  case 1
  then show ?case by simp
next
  case (2 h ls)
  show ?case
  proof (cases "patchHeader h")
    case None
    then show ?thesis by simp
  next
    case (Some m)
    show ?thesis
    proof (cases "list_ex bad_sign (takeWhile not_at ls)")
      case True
      from content_loop_bad [OF this, of "[]"] Some show ?thesis by auto
    next
      case False
      with "2.prems" Some have "list_ex hunk_bad (hunks (dropWhile not_at ls))"
        by (simp add: hunk_bad_pair is_header_def)
      from "2.IH" [OF this] content_loop_ok [OF False, of "[]"] Some show ?thesis by simp
    qed
  qed
qed

lemma patch_loop_ok:
  "\<not> list_ex hunk_bad (hunks ls) \<Longrightarrow>
     \<exists>ps. patch_loop ls acc = Inr ps \<and> map Some ps = map Some acc @ map hunk_patch (hunks ls)"
proof (induction ls arbitrary: acc rule: hunks.induct)
  case 1
  then show ?case by simp
next
  case (2 h ls)
  from "2.prems" obtain m where m: "patchHeader h = Some m"
    by (auto simp: hunk_bad_pair is_header_def)
  from "2.prems" have ok: "\<not> list_ex bad_sign (takeWhile not_at ls)"
      "\<not> list_ex hunk_bad (hunks (dropWhile not_at ls))"
    by (simp_all add: hunk_bad_pair)
  let ?p = "(header_patch m)\<lparr>diffs := List.map_filter line_diff (takeWhile not_at ls)\<rparr>"
  from "2.IH" [OF ok(2), of "acc @ [?p]"] obtain ps where
    ps: "patch_loop (dropWhile not_at ls) (acc @ [?p]) = Inr ps"
      "map Some ps = map Some (acc @ [?p]) @ map hunk_patch (hunks (dropWhile not_at ls))"
    by blast
  have "hunk_patch (h, takeWhile not_at ls) = Some ?p"
    using m by (simp add: hunk_patch_def)
  with ps m content_loop_ok [OF ok(1), of "[]"] show ?case by simp
qed

lemma at_line_not_bad: "\<not> not_at l \<Longrightarrow> \<not> bad_sign l"
  by (simp add: not_at_def bad_sign_def)

lemma list_ex_takeWhile_not_at:
  "list_ex (\<lambda>l. bad_sign l \<or> (\<not> not_at l \<and> \<not> is_header l)) (takeWhile not_at ls) =
   list_ex bad_sign (takeWhile not_at ls)"
  by (induction ls) simp_all

lemma hunks_malformed: "list_ex hunk_bad (hunks ls) = malformed ls"
proof (induction ls rule: hunks.induct)
  case 1
  show ?case by (simp add: malformed_def)
next
  case (2 h ls)
  define Q where "Q = (\<lambda>l. bad_sign l \<or> (\<not> not_at l \<and> \<not> is_header l))"
  define tw where "tw = takeWhile not_at ls"
  define dw where "dw = dropWhile not_at ls"
  have mal: "\<And>x xs. malformed (x # xs) = (\<not> is_header x \<or> list_ex Q xs)"
    by (simp add: malformed_def Q_def)
  have "list_ex Q (tw @ dw) = (list_ex Q tw \<or> list_ex Q dw)"
    by (rule list_ex_append)
  then have split: "list_ex Q ls = (list_ex Q tw \<or> list_ex Q dw)"
    by (simp only: tw_def dw_def takeWhile_dropWhile_id)
  have tw: "list_ex Q tw = list_ex bad_sign tw"
    unfolding Q_def tw_def by (rule list_ex_takeWhile_not_at)
  have dw: "list_ex Q dw = malformed dw"
  proof (cases dw)
    case Nil
    then show ?thesis by (simp add: malformed_def)
  next
    case (Cons x xs)
    have "\<not> not_at (hd dw)"
      unfolding dw_def by (rule hd_dropWhile) (use Cons in \<open>simp add: dw_def\<close>)
    with Cons have "\<not> not_at x" by simp
    with at_line_not_bad [of x] have "Q x = (\<not> is_header x)" by (simp add: Q_def)
    with Cons show ?thesis by (simp add: mal)
  qed
  have "hunks (h # ls) = (h, tw) # hunks dw" by (simp add: tw_def dw_def)
  then have "list_ex hunk_bad (hunks (h # ls)) =
      (\<not> is_header h \<or> list_ex bad_sign tw \<or> list_ex hunk_bad (hunks dw))"
    by (simp add: hunk_bad_pair)
  also have "\<dots> = (\<not> is_header h \<or> list_ex bad_sign tw \<or> malformed dw)"
    using "2.IH" by (simp only: dw_def)
  also have "\<dots> = (\<not> is_header h \<or> list_ex Q ls)"
    by (simp only: split dw tw)
  also have "\<dots> = malformed (h # ls)" by (simp only: mal)
  finally show ?case .
qed


lemma patch_fromText_fails_iff:
  "(\<exists>e. patch_fromText t = Inl e) = (t \<noteq> [] \<and> malformed (split_text t))"
proof (cases "t = []")
  case True
  then show ?thesis by (simp add: patch_fromText_def)
next
  case False
  then have pf: "patch_fromText t = patch_loop (split_text t) []"
    by (simp add: patch_fromText_def)
  show ?thesis
  proof (cases "malformed (split_text t)")
    case True
    then have "list_ex hunk_bad (hunks (split_text t))" by (simp only: hunks_malformed)
    from patch_loop_bad [OF this, of "[]"] True False pf show ?thesis by simp
  next
    case m: False
    then have "\<not> list_ex hunk_bad (hunks (split_text t))" by (simp add: hunks_malformed)
    from patch_loop_ok [OF this, of "[]"] obtain ps where "patch_loop (split_text t) [] = Inr ps"
      by blast
    with m pf show ?thesis by simp
  qed
qed

lemma patch_fromText_hunks:
  assumes "patch_fromText t = Inr ps"
  shows "map Some ps = (if t = [] then [] else map hunk_patch (hunks (split_text t)))"
proof (cases "t = []")
  case True
  with assms show ?thesis by (simp add: patch_fromText_def)
next
  case False
  then have pf: "patch_fromText t = patch_loop (split_text t) []"
    by (simp add: patch_fromText_def)
  from assms have "\<not> (\<exists>e. patch_fromText t = Inl e)" by simp
  with False have "\<not> malformed (split_text t)" by (simp only: patch_fromText_fails_iff simp_thms)
  then have "\<not> list_ex hunk_bad (hunks (split_text t))" by (simp add: hunks_malformed)
  from patch_loop_ok [OF this, of "[]"] obtain ps' where
    "patch_loop (split_text t) [] = Inr ps'" "map Some ps' = map hunk_patch (hunks (split_text t))"
    by auto
  with assms pf False show ?thesis by simp
qed

lemma strip_prefix_Some: "strip_prefix p l = Some r \<Longrightarrow> l = p @ r"
proof (induction p l rule: strip_prefix.induct)
  case (1 s)
  then show ?case by simp
next
  case (2 p ps)
  then show ?case by simp
next
  case (3 p ps c cs)
  then show ?case by (simp split: if_splits)
qed

lemma takeWhile_is_digit: "list_all is_digit (takeWhile is_digit s)"
  by (induction s) simp_all

lemma header_half_form:
  assumes "header_half s = Some (g1, g2, r)"
  shows "\<exists>k. s = g1 @ comma_text k @ g2 @ r"
    and "list_all is_digit g1" "g1 \<noteq> []" "list_all is_digit g2"
proof -
  define r1 where "r1 = dropWhile is_digit s"
  define r2 where "r2 = (case r1 of [] \<Rightarrow> r1 | c # cs \<Rightarrow> if c = CHR '','' then cs else r1)"
  from assms have g: "g1 = takeWhile is_digit s" "g1 \<noteq> []" "g2 = takeWhile is_digit r2"
      "r = dropWhile is_digit r2"
    unfolding r2_def r1_def by (auto simp: header_half_def Let_def split: if_splits)
  show "list_all is_digit g1" "g1 \<noteq> []" "list_all is_digit g2"
    using g by (simp_all add: takeWhile_is_digit)
  have s: "s = g1 @ r1" by (simp add: g r1_def)
  have r2s: "r2 = g2 @ r" by (simp add: g)
  have "r1 = comma_text True @ r2 \<or> r1 = comma_text False @ r2"
    by (cases r1) (simp_all add: r2_def comma_text_def)
  with s r2s show "\<exists>k. s = g1 @ comma_text k @ g2 @ r" by auto
qed

lemma patchHeader_form:
  assumes "patchHeader l = Some (a, b, c, d)"
  shows "\<exists>k1 k2. l = header_pattern_text a k1 b c k2 d"
    and "list_all is_digit a" "a \<noteq> []" "list_all is_digit b"
    and "list_all is_digit c" "c \<noteq> []" "list_all is_digit d"
proof -
  from assms obtain r0 r1 r2 where
    p: "strip_prefix ''@@ -'' l = Some r0" "header_half r0 = Some (a, b, r1)"
      "strip_prefix '' +'' r1 = Some r2" "header_half r2 = Some (c, d, '' @@'')"
    by (auto simp: patchHeader_def split: option.splits if_splits)
  from header_half_form [OF p(2)] obtain k1 where
    h1: "r0 = a @ comma_text k1 @ b @ r1" "list_all is_digit a" "a \<noteq> []" "list_all is_digit b"
    by blast
  from header_half_form [OF p(4)] obtain k2 where
    h2: "r2 = c @ comma_text k2 @ d @ '' @@''" "list_all is_digit c" "c \<noteq> []" "list_all is_digit d"
    by blast
  show "list_all is_digit a" "a \<noteq> []" "list_all is_digit b"
    "list_all is_digit c" "c \<noteq> []" "list_all is_digit d"
    using h1 h2 by simp_all
  have "l = ''@@ -'' @ r0" using strip_prefix_Some [OF p(1)] .
  moreover have "r1 = '' +'' @ r2" using strip_prefix_Some [OF p(3)] .
  ultimately have "l = header_pattern_text a k1 b c k2 d"
    unfolding header_pattern_text_def using h1(1) h2(1) by simp
  then show "\<exists>k1 k2. l = header_pattern_text a k1 b c k2 d" by blast
qed


lemma header_half_pattern:
  assumes "list_all is_digit s" "s \<noteq> []" "list_all is_digit l"
    "r \<noteq> []" "\<not> is_digit (hd r)" "hd r \<noteq> CHR '',''"
  shows "\<exists>g1 g2. header_half (s @ comma_text k @ l @ r) = Some (g1, g2, r)"
proof (cases k)
  case True
  have nd: "\<not> is_digit CHR '',''" by (simp add: is_digit_def)
  from assms nd have "takeWhile is_digit (s @ CHR '','' # l @ r) = s"
      "dropWhile is_digit (s @ CHR '','' # l @ r) = CHR '','' # l @ r"
    by (simp_all add: takeWhile_digits dropWhile_digits)
  moreover from assms have "takeWhile is_digit (l @ r) = l" "dropWhile is_digit (l @ r) = r"
    by (simp_all add: takeWhile_digits dropWhile_digits)
  ultimately show ?thesis using True assms(2)
    by (simp add: header_half_def comma_text_def Let_def)
next
  case False
  from assms have sl: "list_all is_digit (s @ l)" by simp
  from sl assms have "takeWhile is_digit ((s @ l) @ r) = s @ l"
      "dropWhile is_digit ((s @ l) @ r) = r"
    by (simp_all only: takeWhile_digits dropWhile_digits simp_thms)
  moreover from assms have "takeWhile is_digit r = []" "dropWhile is_digit r = r"
    by (cases r; simp)+
  ultimately show ?thesis using False assms(2,4,6)
    by (cases r) (simp_all add: header_half_def comma_text_def Let_def)
qed

lemma is_header_pattern_text:
  assumes "list_all is_digit a" "a \<noteq> []" "list_all is_digit b"
    "list_all is_digit c" "c \<noteq> []" "list_all is_digit d"
  shows "is_header (header_pattern_text a k1 b c k2 d)"
proof -
  define t1 where "t1 = '' @@''"
  define t2 where "t2 = '' +'' @ c @ comma_text k2 @ d @ t1"
  have sp: "\<not> is_digit CHR '' ''" by (simp add: is_digit_def)
  have t1: "t1 \<noteq> []" "hd t1 = CHR '' ''" by (simp_all add: t1_def)
  have t2: "t2 \<noteq> []" "hd t2 = CHR '' ''" by (simp_all add: t2_def)
  obtain g1 g2 where h1: "header_half (a @ comma_text k1 @ b @ t2) = Some (g1, g2, t2)"
    using header_half_pattern [OF assms(1-3) t2(1), of k1] t2(2) sp by auto
  obtain g3 g4 where h2: "header_half (c @ comma_text k2 @ d @ t1) = Some (g3, g4, t1)"
    using header_half_pattern [OF assms(4-6) t1(1), of k2] t1(2) sp by auto
  have s1: "strip_prefix ''@@ -'' (''@@ -'' @ (a @ comma_text k1 @ b @ t2)) =
      Some (a @ comma_text k1 @ b @ t2)"
    by (rule strip_prefix_append)
  have s2: "strip_prefix '' +'' t2 = Some (c @ comma_text k2 @ d @ t1)"
    unfolding t2_def by (rule strip_prefix_append)
  have l: "header_pattern_text a k1 b c k2 d = ''@@ -'' @ (a @ comma_text k1 @ b @ t2)"
    by (simp add: header_pattern_text_def t2_def t1_def)
  have "patchHeader (''@@ -'' @ (a @ comma_text k1 @ b @ t2)) =
      (if t1 = '' @@'' then Some (g1, g2, g3, g4) else None)"
    by (simp only: patchHeader_def s1 h1 s2 h2 option.case prod.case)
  then show ?thesis by (simp add: is_header_def l t1_def)
qed

lemma is_header_iff:
  "is_header l =
     (\<exists>a k1 b c k2 d.
        list_all is_digit a \<and> a \<noteq> [] \<and> list_all is_digit b \<and>
        list_all is_digit c \<and> c \<noteq> [] \<and> list_all is_digit d \<and>
        l = header_pattern_text a k1 b c k2 d)"
proof
  assume "is_header l"
  then obtain a b c d where m: "patchHeader l = Some (a, b, c, d)"
    by (auto simp: is_header_def)
  from patchHeader_form [OF m] show "\<exists>a k1 b c k2 d.
        list_all is_digit a \<and> a \<noteq> [] \<and> list_all is_digit b \<and>
        list_all is_digit c \<and> c \<noteq> [] \<and> list_all is_digit d \<and>
        l = header_pattern_text a k1 b c k2 d" by blast
next
  assume "\<exists>a k1 b c k2 d.
        list_all is_digit a \<and> a \<noteq> [] \<and> list_all is_digit b \<and>
        list_all is_digit c \<and> c \<noteq> [] \<and> list_all is_digit d \<and>
        l = header_pattern_text a k1 b c k2 d"
  then show "is_header l" using is_header_pattern_text by blast
qed

lemma header_grammar_iff:
  "header_grammar l =
     (\<exists>a b c d.
        list_all is_digit a \<and> a \<noteq> [] \<and> list_all is_digit b \<and>
        list_all is_digit c \<and> c \<noteq> [] \<and> list_all is_digit d \<and>
        l = header_text a b c d)"
proof
  assume "header_grammar l"
  then obtain a b c d where m: "patchHeader l = Some (a, b, c, d)" "l = header_text a b c d"
    by (auto simp: header_grammar_def split: option.splits)
  from patchHeader_form(2-7) [OF m(1)] m(2) show "\<exists>a b c d.
        list_all is_digit a \<and> a \<noteq> [] \<and> list_all is_digit b \<and>
        list_all is_digit c \<and> c \<noteq> [] \<and> list_all is_digit d \<and>
        l = header_text a b c d" by blast
next
  assume "\<exists>a b c d.
        list_all is_digit a \<and> a \<noteq> [] \<and> list_all is_digit b \<and>
        list_all is_digit c \<and> c \<noteq> [] \<and> list_all is_digit d \<and>
        l = header_text a b c d"
  then obtain a b c d where h: "list_all is_digit a" "a \<noteq> []" "list_all is_digit b"
      "list_all is_digit c" "c \<noteq> []" "list_all is_digit d" "l = header_text a b c d"
    by blast
  from patchHeader_header_text [OF h(1-6)] h(7) show "header_grammar l"
    by (simp add: header_grammar_def)
qed

text \<open>
  C7, as the claim states it: the line \<open>@@ -5, +5 @@\<close>, with a comma and no length
  digits after it, is not a header of the grammar
  \<open>@@ -<start1>[,<len1>] +<start2>[,<len2>] @@\<close>, yet the parser does not throw on it:
  it reads the length as left out.
\<close>

theorem header_with_bare_comma_accepted:
  "\<not> header_grammar ''@@ -5, +5 @@''
   \<and> patch_fromText ''@@ -5, +5 @@'' =
       Inr [\<lparr>diffs = [], start1 = 4, start2 = 4, length1 = 1, length2 = 1\<rparr>]"
  by (simp add: header_grammar_def parse_eval header_text_def half_text_def)

text \<open>
  C7, amended. The parser throws exactly when the text is not empty and its lines are
  malformed: the first line, or a later line beginning with \<open>@\<close>, does not match the
  header pattern, or a later line begins with a character other than \<open>-\<close>, \<open>+\<close>,
  space and \<open>@\<close>. The header pattern is \<open>@@ -\<close>, start digits, a comma or none, length
  digits or none, \<open> +\<close>, the same again, \<open> @@\<close>. When the parser returns, its patches
  are the hunks of the lines, one for each header line: the lines beginning \<open>-\<close>,
  \<open>+\<close> and space give delete, insert and equal primitives, an empty line gives none,
  and a line beginning \<open>@\<close> ends the hunk and is read as the next header. The text
  \<open>not a header\<close> with a line feed is rejected.
\<close>

theorem patch_parser_fails_iff_malformed:
  "((\<exists>e. patch_fromText t = Inl e) = (t \<noteq> [] \<and> malformed (split_text t)))
   \<and> (is_header l =
        (\<exists>a k1 b c k2 d.
           list_all is_digit a \<and> a \<noteq> [] \<and> list_all is_digit b \<and>
           list_all is_digit c \<and> c \<noteq> [] \<and> list_all is_digit d \<and>
           l = header_pattern_text a k1 b c k2 d))
   \<and> (patch_fromText t = Inr ps \<longrightarrow>
        map Some ps = (if t = [] then [] else map hunk_patch (hunks (split_text t))))
   \<and> patch_fromText (''not a header'' @ [CHR 0x0A]) = Inl (InvalidPatchString ''not a header'')"
proof (intro conjI impI)
  show "(\<exists>e. patch_fromText t = Inl e) = (t \<noteq> [] \<and> malformed (split_text t))"
    by (rule patch_fromText_fails_iff)
  show "is_header l =
        (\<exists>a k1 b c k2 d.
           list_all is_digit a \<and> a \<noteq> [] \<and> list_all is_digit b \<and>
           list_all is_digit c \<and> c \<noteq> [] \<and> list_all is_digit d \<and>
           l = header_pattern_text a k1 b c k2 d)"
    by (rule is_header_iff)
  show "map Some ps = (if t = [] then [] else map hunk_patch (hunks (split_text t)))"
    if "patch_fromText t = Inr ps"
    using that by (rule patch_fromText_hunks)
  show "patch_fromText (''not a header'' @ [CHR 0x0A]) = Inl (InvalidPatchString ''not a header'')"
    by (simp add: patch_fromText_def patchHeader_def)
qed

theorem patch_parser_fails_iff_malformed_witness:
  "(\<exists>e. patch_fromText (''@@ -1 +1 @@'' @ [CHR 0x0A] @ ''*x'') = Inl e)
   \<and> patch_fromText (''@@ -1,2 +1,2 @@'' @ [CHR 0x0A] @ ''-a'' @ [CHR 0x0A] @ ''+b''
         @ [CHR 0x0A, CHR 0x0A] @ '' c'' @ [CHR 0x0A] @ ''@@ -9 +9 @@'' @ [CHR 0x0A] @ '' x'') =
       Inr [\<lparr>diffs = [(DIFF_DELETE, ''a''), (DIFF_INSERT, ''b''), (DIFF_EQUAL, ''c'')],
              start1 = 0, start2 = 0, length1 = 2, length2 = 2\<rparr>,
            \<lparr>diffs = [(DIFF_EQUAL, ''x'')],
              start1 = 8, start2 = 8, length1 = 1, length2 = 1\<rparr>]
   \<and> map Some
        [\<lparr>diffs = [(DIFF_DELETE, ''a''), (DIFF_INSERT, ''b''), (DIFF_EQUAL, ''c'')],
              start1 = 0, start2 = 0, length1 = 2, length2 = 2\<rparr>,
            \<lparr>diffs = [(DIFF_EQUAL, ''x'')],
              start1 = 8, start2 = 8, length1 = 1, length2 = 1\<rparr>] =
       map hunk_patch (hunks (split_text (''@@ -1,2 +1,2 @@'' @ [CHR 0x0A] @ ''-a'' @ [CHR 0x0A] @ ''+b''
         @ [CHR 0x0A, CHR 0x0A] @ '' c'' @ [CHR 0x0A] @ ''@@ -9 +9 @@'' @ [CHR 0x0A] @ '' x'')))"
proof -
  let ?bad = "''@@ -1 +1 @@'' @ [CHR 0x0A] @ ''*x''"
  let ?good = "''@@ -1,2 +1,2 @@'' @ [CHR 0x0A] @ ''-a'' @ [CHR 0x0A] @ ''+b''
         @ [CHR 0x0A, CHR 0x0A] @ '' c'' @ [CHR 0x0A] @ ''@@ -9 +9 @@'' @ [CHR 0x0A] @ '' x''"
  let ?ps = "[\<lparr>diffs = [(DIFF_DELETE, ''a''), (DIFF_INSERT, ''b''), (DIFF_EQUAL, ''c'')],
              start1 = 0, start2 = 0, length1 = 2, length2 = 2\<rparr>,
            \<lparr>diffs = [(DIFF_EQUAL, ''x'')],
              start1 = 8, start2 = 8, length1 = 1, length2 = 1\<rparr>]"
  have bad: "?bad \<noteq> [] \<and> malformed (split_text ?bad)"
    by (simp add: malformed_def bad_sign_def)
  have good: "patch_fromText ?good = Inr ?ps"
    by (simp add: parse_eval)
  have good_ne: "?good \<noteq> []" by simp
  from patch_parser_fails_iff_malformed [where t = ?bad, THEN conjunct1] bad
  have 1: "\<exists>e. patch_fromText ?bad = Inl e" by blast
  from patch_parser_fails_iff_malformed
         [where t = ?good and ps = ?ps, THEN conjunct2, THEN conjunct2, THEN conjunct1]
       good good_ne
  have 2: "map Some ?ps = map hunk_patch (hunks (split_text ?good))"
    by (simp only: if_False simp_thms)
  from 1 good 2 show ?thesis by (intro conjI)
qed


section \<open>Round trip\<close>

lemma line_offset_nonpos [simp]: "l \<le> 0 \<Longrightarrow> line_offset xs l = 0"
  by (cases xs) simp_all


lemma advance_character_nonneg: "0 \<le> character p \<Longrightarrow> 0 \<le> character (advance a p)"
  by (induction a arbitrary: p) simp_all

























lemmas pipeline_eval =
  getTextEditsFromPatch_def strip_file_header_def startsWith_def indexOf_def substring_def
  no_newline_marker_def add_eol_def Edit_apply_def





section \<open>The marker for a missing final newline\<close>

text \<open>
  C8. With the marker \<open>\ No newline at end of file\<close> after the old line and again
  after the new line, as a diff of two texts without a final newline has it, only the
  first marker is removed; the second reaches the parser, which throws on its sign.
\<close>

theorem second_marker_reaches_parser:
  "replace_marker
     (''@@ -1 +1 @@'' @ [CHR 0x0A] @ ''-a'' @ [CHR 0x0A] @ no_newline_marker @ [CHR 0x0A]
        @ ''+b'' @ [CHR 0x0A] @ no_newline_marker @ [CHR 0x0A]) =
     ''@@ -1 +1 @@'' @ [CHR 0x0A] @ ''-a'' @ [CHR 0x0A]
        @ ''+b'' @ [CHR 0x0A] @ no_newline_marker @ [CHR 0x0A]
   \<and> getTextEditsFromPatch [CHR 0x0A] ''a''
     (''--- f'' @ [CHR 0x0A] @ ''+++ f'' @ [CHR 0x0A]
        @ ''@@ -1 +1 @@'' @ [CHR 0x0A] @ ''-a'' @ [CHR 0x0A] @ no_newline_marker @ [CHR 0x0A]
        @ ''+b'' @ [CHR 0x0A] @ no_newline_marker @ [CHR 0x0A]) =
     Inl (InvalidPatchMode [CHR 0x5C] '' No newline at end of file'')"
  by (simp add: pipeline_eval parse_eval synth_eval)

end
